theory Spec2Isabelle
  imports Main "HOL-Library.Word"
begin

unbundle bit_operations_syntax

section \<open>Registers and spill slots (lj\_target.h)\<close>

text \<open>
  \<open>Reg\<close>, \<open>RegSP\<close>, \<open>RegSet\<close> and \<open>RegCost\<close> are all \<open>uint32_t\<close> in the header.
  The macros are embedded as functions on \<open>32 word\<close>; a field the header's comments
  give a narrower storage type (\<open>uint8_t\<close> in \<open>ir->r\<close>, 16 bit \<open>IRRef1\<close>) is a
  narrower word, converted with \<open>ucast\<close> where C promotes or casts.
\<close>

type_synonym Reg = "32 word"
type_synonym RegSP = "32 word"
type_synonym RegSet = "32 word"
type_synonym RegCost = "32 word"
type_synonym IRRef1 = "16 word"

definition RID_NONE :: Reg where
  "RID_NONE = 0x80"

definition RID_MASK :: Reg where
  "RID_MASK = 0x7f"

definition RID_INIT :: Reg where
  "RID_INIT = RID_NONE OR RID_MASK"

text \<open>A C integer used as a condition is true iff it is non-zero.\<close>

definition c_true :: "32 word \<Rightarrow> bool" where
  "c_true w = (w \<noteq> 0)"

definition ra_noreg :: "Reg \<Rightarrow> bool" where
  "ra_noreg r = c_true (r AND RID_NONE)"

definition ra_hasreg :: "Reg \<Rightarrow> bool" where
  "ra_hasreg r = (\<not> c_true (r AND RID_NONE))"

definition ra_hashint :: "Reg \<Rightarrow> bool" where
  "ra_hashint r = (r \<noteq> RID_INIT)"

definition ra_gethint :: "Reg \<Rightarrow> Reg" where
  "ra_gethint r = r AND RID_MASK"

text \<open>
  \<open>ra_sethint(rr, r)\<close> assigns to the lvalue \<open>rr\<close>. The model takes the old content of
  \<open>rr\<close> and returns the new one, the 8-bit value of the cast.
\<close>

definition ra_sethint :: "8 word \<Rightarrow> Reg \<Rightarrow> 8 word" where
  "ra_sethint rr r = ucast (r OR RID_NONE)"

definition ra_samehint :: "Reg \<Rightarrow> Reg \<Rightarrow> bool" where
  "ra_samehint r1 r2 = (ra_gethint (r1 XOR r2) = 0)"

text \<open>Spill slot 0 means no spill slot has been allocated.\<close>

definition SPS_NONE :: "32 word" where
  "SPS_NONE = 0"

definition ra_hasspill :: "32 word \<Rightarrow> bool" where
  "ra_hasspill s = (s \<noteq> SPS_NONE)"

text \<open>Combined register and spill slot. The shifts by 8 have a constant, legal count.\<close>

definition REGSP :: "Reg \<Rightarrow> 32 word \<Rightarrow> RegSP" where
  "REGSP r s = r + push_bit 8 s"

definition REGSP_HINT :: "Reg \<Rightarrow> RegSP" where
  "REGSP_HINT r = r OR RID_NONE"

definition REGSP_INIT :: RegSP where
  "REGSP_INIT = REGSP RID_INIT 0"

definition regsp_reg :: "RegSP \<Rightarrow> Reg" where
  "regsp_reg rs = rs AND 255"

definition regsp_spill :: "RegSP \<Rightarrow> 32 word" where
  "regsp_spill rs = drop_bit 8 rs"

definition regsp_used :: "RegSP \<Rightarrow> bool" where
  "regsp_used rs = (rs AND NOT (REGSP RID_MASK 0) \<noteq> REGSP RID_NONE 0)"

section \<open>Register sets\<close>

text \<open>
  The register-set macros shift by a variable count. C leaves a shift undefined when the
  count is negative or not smaller than the width of the left operand, here 32 bits, so
  the two shifts are partial: \<open>None\<close> is the undefined case. The count is the
  mathematical value of the C operand, an \<open>int\<close>.
\<close>

definition shl32 :: "32 word \<Rightarrow> int \<Rightarrow> 32 word option" where
  "shl32 x n = (if 0 \<le> n \<and> n < 32 then Some (push_bit (nat n) x) else None)"

definition shr32 :: "32 word \<Rightarrow> int \<Rightarrow> 32 word option" where
  "shr32 x n = (if 0 \<le> n \<and> n < 32 then Some (drop_bit (nat n) x) else None)"

definition RID2RSET :: "int \<Rightarrow> RegSet option" where
  "RID2RSET r = shl32 1 r"

definition RSET_EMPTY :: RegSet where
  "RSET_EMPTY = 0"

definition RSET_RANGE :: "int \<Rightarrow> int \<Rightarrow> RegSet option" where
  "RSET_RANGE lo hi =
     (case RID2RSET (hi - lo) of
        None \<Rightarrow> None
      | Some b \<Rightarrow> shl32 (b - 1) lo)"

definition rset_test :: "RegSet \<Rightarrow> int \<Rightarrow> 32 word option" where
  "rset_test rs r = map_option (\<lambda>w. w AND 1) (shr32 rs r)"

definition rset_set :: "RegSet \<Rightarrow> int \<Rightarrow> RegSet option" where
  "rset_set rs r = map_option (\<lambda>b. rs OR b) (RID2RSET r)"

definition rset_clear :: "RegSet \<Rightarrow> int \<Rightarrow> RegSet option" where
  "rset_clear rs r = map_option (\<lambda>b. rs AND NOT b) (RID2RSET r)"

definition rset_exclude :: "RegSet \<Rightarrow> int \<Rightarrow> RegSet option" where
  "rset_exclude rs r = map_option (\<lambda>b. rs AND NOT b) (RID2RSET r)"

text \<open>
  Modelled from the spec: \<open>lj_fls\<close> and \<open>lj_ffs\<close> are defined in \<open>lj_def.h\<close>, which is
  not among the sources. The spec has them pick the highest and the lowest set bit of
  the mask, as one hardware bit scan, with no behaviour defined for the empty mask:
  \<open>None\<close> here. \<open>scan_down x n\<close> looks at bits \<open>n\<close>, \<open>n - 1\<close>, ..., 0 in that order,
  \<open>scan_up x i k\<close> at the \<open>k\<close> bits \<open>i\<close>, \<open>i + 1\<close>, ... in that order.
\<close>

primrec scan_down :: "32 word \<Rightarrow> nat \<Rightarrow> nat option" where
  "scan_down x 0 = (if bit x 0 then Some 0 else None)"
| "scan_down x (Suc n) = (if bit x (Suc n) then Some (Suc n) else scan_down x n)"

primrec scan_up :: "32 word \<Rightarrow> nat \<Rightarrow> nat \<Rightarrow> nat option" where
  "scan_up x i 0 = None"
| "scan_up x i (Suc k) = (if bit x i then Some i else scan_up x (Suc i) k)"

definition lj_fls :: "32 word \<Rightarrow> 32 word option" where
  "lj_fls x = map_option of_nat (scan_down x 31)"

definition lj_ffs :: "32 word \<Rightarrow> 32 word option" where
  "lj_ffs x = map_option of_nat (scan_up x 0 32)"

definition rset_picktop :: "RegSet \<Rightarrow> Reg option" where
  "rset_picktop rs = lj_fls rs"

definition rset_pickbot :: "RegSet \<Rightarrow> Reg option" where
  "rset_pickbot rs = lj_ffs rs"

section \<open>Register allocation cost\<close>

definition REGCOST_PHI_WEIGHT :: RegCost where
  "REGCOST_PHI_WEIGHT = 64"

definition REGCOST :: "RegCost \<Rightarrow> RegCost \<Rightarrow> RegCost" where
  "REGCOST cost ref = ref + push_bit 16 cost"

definition regcost_ref :: "RegCost \<Rightarrow> IRRef1" where
  "regcost_ref rc = ucast rc"

text \<open>
  \<open>IRT_ISPHI\<close> is a constant of \<open>lj_ir.h\<close>, which is not among the sources: it is the
  parameter \<open>isphi\<close> of the two macros that use it. The spec calls it a type-flag bit;
  the theorems take it to be \<open>2 ^ k\<close>. The division is between constants and is never
  by zero in a program that compiles.
\<close>

definition REGCOST_T :: "32 word \<Rightarrow> 32 word \<Rightarrow> RegCost" where
  "REGCOST_T isphi t = (t AND isphi) * (push_bit 16 REGCOST_PHI_WEIGHT div isphi)"

definition REGCOST_REF_T :: "32 word \<Rightarrow> RegCost \<Rightarrow> 32 word \<Rightarrow> RegCost" where
  "REGCOST_REF_T isphi ref t = REGCOST ref ref + REGCOST_T isphi t"

text \<open>
  The sort key the spec reads off a cost: the reference plus the phi penalty, as
  unbounded numbers. \<open>phi_weight\<close> is 64 for a type with the phi bit set and 0 otherwise.
\<close>

definition phi_weight :: "32 word \<Rightarrow> 32 word \<Rightarrow> nat" where
  "phi_weight isphi t = (if t AND isphi \<noteq> 0 then unat REGCOST_PHI_WEIGHT else 0)"

definition spec_cost_key :: "32 word \<Rightarrow> IRRef1 \<Rightarrow> 32 word \<Rightarrow> nat" where
  "spec_cost_key isphi ref t = unat ref + phi_weight isphi t"

section \<open>Exit stubs\<close>

text \<open>
  \<open>J->exitstubgroup\<close> is an array of code addresses, one for each group of exit stubs,
  null until the group is generated. Addresses are numbers of bytes and 0 is the null
  pointer. \<open>EXITSTUBS_PER_GROUP\<close> and \<open>EXITSTUB_SPACING\<close> come from the target header
  \<open>lj_target_x86.h\<close>, which is not among the sources: they are the parameters \<open>G\<close> and
  \<open>S\<close>, as converted to the unsigned 32-bit type of \<open>exitno\<close>, in which the quotient,
  the remainder and the product are computed. The result is \<open>None\<close> where the assertion
  fails, where the index is outside the array, and where the division is by zero.
\<close>

type_synonym MCode_ptr = nat

record jit_State =
  exitstubgroup :: "MCode_ptr list"

definition NULL :: MCode_ptr where
  "NULL = 0"

definition exitstub_addr :: "32 word \<Rightarrow> 32 word \<Rightarrow> jit_State \<Rightarrow> 32 word \<Rightarrow> MCode_ptr option" where
  "exitstub_addr G S J exitno =
     (if G = 0 then None
      else let g = unat (exitno div G) in
        if g < length (exitstubgroup J) \<and> exitstubgroup J ! g \<noteq> NULL
        then Some (exitstubgroup J ! g + unat (S * (exitno mod G)))
        else None)"

section \<open>Bits of the constants\<close>

lemma bit_RID_NONE: "bit RID_NONE n \<longleftrightarrow> n = 7"
  using bit_exp_iff [where ?'a = "32 word", of 7 n] by (auto simp add: RID_NONE_def)

lemma bit_RID_MASK: "bit RID_MASK n \<longleftrightarrow> n < 7"
  using bit_mask_iff [where ?'a = "32 word", of 7 n]
  by (auto simp add: RID_MASK_def mask_eq_exp_minus_1)

lemma bit_RID_INIT: "bit RID_INIT n \<longleftrightarrow> n < 8"
  unfolding RID_INIT_def by (auto simp add: bit_simps bit_RID_NONE bit_RID_MASK)

lemma RID_MASK_mask: "RID_MASK = mask 7"
  by (simp add: RID_MASK_def mask_eq_exp_minus_1)

lemma and_255: "(x :: 32 word) AND 255 = take_bit 8 x"
  by (simp add: take_bit_eq_mask mask_eq_exp_minus_1)

lemma bit_below_exp:
  fixes x :: "32 word"
  assumes "x < 2 ^ n" and "bit x m"
  shows "m < n"
proof -
  have "x AND mask n = x" using assms(1) by (rule less_mask_eq)
  then have "bit (x AND mask n) m" using assms(2) by simp
  then show ?thesis by (simp add: bit_simps)
qed

lemma ex_bit:
  fixes x :: "32 word"
  assumes "x \<noteq> 0"
  shows "\<exists>i<32. bit x i"
proof (rule ccontr)
  assume "\<not> (\<exists>i<32. bit x i)"
  then have "x = 0" by (intro bit_word_eqI) simp
  then show False using assms by simp
qed

section \<open>The hint stored by \<open>ra_sethint\<close>\<close>

lemma sethint_gethint: "ra_gethint (ucast (ra_sethint rr r)) = r AND RID_MASK"
  unfolding ra_gethint_def ra_sethint_def
  by (rule bit_word_eqI) (auto simp add: bit_simps bit_RID_NONE bit_RID_MASK)

lemma sethint_noreg: "ra_noreg (ucast (ra_sethint rr r))"
proof -
  have "bit ((ucast (ra_sethint rr r) :: 32 word) AND RID_NONE) 7"
    unfolding ra_sethint_def by (simp add: bit_simps bit_RID_NONE)
  then have "(ucast (ra_sethint rr r) :: 32 word) AND RID_NONE \<noteq> 0"
    by auto
  then show ?thesis by (simp add: ra_noreg_def c_true_def)
qed

lemma sethint_ones:
  assumes "r AND RID_MASK = RID_MASK"
  shows "ra_sethint rr r = mask 8"
proof (rule bit_word_eqI)
  fix n
  assume n: "n < LENGTH(8)"
  have b: "bit r m" if "m < 7" for m
  proof -
    have "bit (r AND RID_MASK) m = bit RID_MASK m" using assms by simp
    then show ?thesis using that by (simp add: bit_simps bit_RID_MASK)
  qed
  have "n < 7 \<or> n = 7" using n by auto
  then show "bit (ra_sethint rr r) n = bit (mask 8 :: 8 word) n"
    unfolding ra_sethint_def using b [of n] n
    by (auto simp add: bit_simps bit_RID_NONE)
qed

section \<open>The packed register and spill slot\<close>

lemma unat8_less:
  fixes s :: "8 word"
  shows "unat s < 256"
  using unsigned_less [of s, where ?'a = nat] by simp

lemma unat_ucast8:
  fixes s :: "8 word"
  shows "unat (ucast s :: 32 word) = unat s"
  using unat8_less [of s] by (simp add: unsigned_ucast_eq take_bit_nat_eq_self)

lemma ucast8_less:
  fixes s :: "8 word"
  shows "(ucast s :: 32 word) < 2 ^ 24"
  using unat8_less [of s] by (simp add: word_less_nat_alt unat_ucast8)

lemma ucast8_eq_0:
  fixes s :: "8 word"
  shows "((ucast s :: 32 word) = 0) = (s = 0)"
proof -
  have "((ucast s :: 32 word) = 0) = (unat (ucast s :: 32 word) = unat (0 :: 32 word))"
    by (simp only: word_unat_eq_iff)
  also have "\<dots> = (unat s = unat (0 :: 8 word))"
    by (simp add: unat_ucast8)
  also have "\<dots> = (s = 0)"
    by (simp only: word_unat_eq_iff)
  finally show ?thesis .
qed

lemma REGSP_or:
  assumes "r \<le> 255"
  shows "REGSP r s = r OR push_bit 8 s"
proof -
  have "r < 2 ^ 8" using assms by (simp add: word_le_nat_alt word_less_nat_alt)
  then have "\<not> bit r n \<or> \<not> bit (push_bit 8 s) n" for n
    using bit_below_exp [of r 8 n] by (auto simp add: bit_simps)
  then show ?thesis unfolding REGSP_def by (rule disjunctive_add)
qed

lemma regsp_reg_REGSP:
  assumes "r \<le> 255"
  shows "regsp_reg (REGSP r s) = r"
proof (rule bit_word_eqI)
  fix n
  have lt: "r < 2 ^ 8" using assms by (simp add: word_le_nat_alt word_less_nat_alt)
  show "bit (regsp_reg (REGSP r s)) n = bit r n"
    unfolding REGSP_or [OF assms] regsp_reg_def and_255
    using bit_below_exp [OF lt, of n]
    by (auto simp add: bit_simps)
qed

lemma regsp_spill_REGSP:
  assumes "r \<le> 255" and "s < 2 ^ 24"
  shows "regsp_spill (REGSP r s) = s"
proof (rule bit_word_eqI)
  fix n
  have lt: "r < 2 ^ 8" using assms by (simp add: word_le_nat_alt word_less_nat_alt)
  show "bit (regsp_spill (REGSP r s)) n = bit s n"
    unfolding REGSP_or [OF assms(1)] regsp_spill_def
    using bit_below_exp [OF lt, of "8 + n"] bit_below_exp [OF assms(2), of n]
    by (auto simp add: bit_simps)
qed

lemma noreg_regsp_reg: "ra_noreg (regsp_reg rs) = bit rs 7"
proof -
  have "(regsp_reg rs AND RID_NONE \<noteq> 0) = bit rs 7"
  proof
    assume "regsp_reg rs AND RID_NONE \<noteq> 0"
    then obtain n where "bit (regsp_reg rs AND RID_NONE) n"
      by (auto simp add: bit_eq_iff [where ?'a = "32 word"])
    then show "bit rs 7"
      by (auto simp add: regsp_reg_def and_255 bit_simps bit_RID_NONE)
  next
    assume "bit rs 7"
    then have "bit (regsp_reg rs AND RID_NONE) 7"
      by (simp add: regsp_reg_def and_255 bit_simps bit_RID_NONE)
    then show "regsp_reg rs AND RID_NONE \<noteq> 0" by auto
  qed
  then show ?thesis by (simp add: ra_noreg_def c_true_def)
qed

lemma regsp_spill_none: "(regsp_spill rs = SPS_NONE) = (\<forall>n. 8 \<le> n \<longrightarrow> \<not> bit rs n)"
proof
  assume "regsp_spill rs = SPS_NONE"
  then have a: "\<not> bit (drop_bit 8 rs) m" for m
    by (simp add: regsp_spill_def SPS_NONE_def)
  show "\<forall>n. 8 \<le> n \<longrightarrow> \<not> bit rs n"
  proof (intro allI impI)
    fix n :: nat
    assume "8 \<le> n"
    then have "n = 8 + (n - 8)" by simp
    then show "\<not> bit rs n" using a [of "n - 8"] by (simp add: bit_simps)
  qed
next
  assume "\<forall>n. 8 \<le> n \<longrightarrow> \<not> bit rs n"
  then show "regsp_spill rs = SPS_NONE"
    unfolding regsp_spill_def SPS_NONE_def
    by (intro bit_word_eqI) (simp add: bit_simps)
qed

lemma regsp_used_bits: "regsp_used rs = (\<not> (\<forall>n. bit rs n = (n = 7) \<or> n < 7))"
proof -
  have "(rs AND NOT (REGSP RID_MASK 0) = REGSP RID_NONE 0) = (\<forall>n. bit rs n = (n = 7) \<or> n < 7)"
  proof
    assume a: "rs AND NOT (REGSP RID_MASK 0) = REGSP RID_NONE 0"
    show "\<forall>n. bit rs n = (n = 7) \<or> n < 7"
    proof
      fix n
      have "bit (rs AND NOT (REGSP RID_MASK 0)) n = bit (REGSP RID_NONE 0) n"
        using a by simp
      then show "bit rs n = (n = 7) \<or> n < 7"
        by (auto simp add: REGSP_def bit_simps bit_RID_MASK bit_RID_NONE dest: bit_imp_le_length)
    qed
  next
    assume a: "\<forall>n. bit rs n = (n = 7) \<or> n < 7"
    show "rs AND NOT (REGSP RID_MASK 0) = REGSP RID_NONE 0"
    proof (rule bit_word_eqI)
      fix n
      show "bit (rs AND NOT (REGSP RID_MASK 0)) n = bit (REGSP RID_NONE 0) n"
        using a [rule_format, of n]
        by (auto simp add: REGSP_def bit_simps bit_RID_MASK bit_RID_NONE)
    qed
  qed
  then show ?thesis by (simp add: regsp_used_def)
qed

lemma regsp_used_fields:
  "regsp_used rs = (\<not> (ra_noreg (regsp_reg rs) \<and> regsp_spill rs = SPS_NONE))"
proof -
  have "(\<forall>n. bit rs n = (n = 7) \<or> n < 7) = (bit rs 7 \<and> (\<forall>n. 8 \<le> n \<longrightarrow> \<not> bit rs n))"
  proof
    assume a: "\<forall>n. bit rs n = (n = 7) \<or> n < 7"
    have "bit rs 7" using a [rule_format, of 7] by simp
    moreover have "\<not> bit rs n" if "8 \<le> n" for n
      using a [rule_format, of n] that by auto
    ultimately show "bit rs 7 \<and> (\<forall>n. 8 \<le> n \<longrightarrow> \<not> bit rs n)" by simp
  next
    assume a: "bit rs 7 \<and> (\<forall>n. 8 \<le> n \<longrightarrow> \<not> bit rs n)"
    show "\<forall>n. bit rs n = (n = 7) \<or> n < 7"
    proof
      fix n :: nat
      consider "n < 7" | "n = 7" | "8 \<le> n" by arith
      then show "bit rs n = (n = 7) \<or> n < 7" using a by cases auto
    qed
  qed
  then show ?thesis unfolding regsp_used_bits noreg_regsp_reg regsp_spill_none by simp
qed

section \<open>Register sets and bit scans\<close>

lemma mask_shift_test:
  fixes n l r :: nat
  shows "drop_bit r (push_bit l ((push_bit n 1 - 1) :: 32 word)) AND 1 =
    (if l \<le> r \<and> r < 32 \<and> r < l + n then 1 else 0)"
proof -
  have m: "(push_bit n 1 - 1 :: 32 word) = mask n"
    by (simp add: mask_eq_exp_minus_1)
  have "drop_bit r (push_bit l (mask n :: 32 word)) AND 1 =
      of_bool (bit (push_bit l (mask n :: 32 word)) r)"
    by (simp add: and_one_eq mod_2_eq_odd bit_iff_odd_drop_bit)
  also have "\<dots> = (if l \<le> r \<and> r < 32 \<and> r < l + n then 1 else 0)"
    by (auto simp add: bit_simps)
  finally show ?thesis unfolding m .
qed

lemma scan_down_None: "(scan_down x n = None) = (\<forall>i\<le>n. \<not> bit x i)"
  by (induction n) (auto simp add: le_Suc_eq)

lemma scan_down_Some:
  "scan_down x n = Some i \<Longrightarrow> i \<le> n \<and> bit x i \<and> (\<forall>j. i < j \<and> j \<le> n \<longrightarrow> \<not> bit x j)"
  by (induction n) (auto simp add: le_Suc_eq split: if_splits)

lemma scan_up_None: "(scan_up x i k = None) = (\<forall>j. i \<le> j \<and> j < i + k \<longrightarrow> \<not> bit x j)"
proof (induction k arbitrary: i)
  case 0
  show ?case by auto
next
  case (Suc k)
  have "(\<forall>j. i \<le> j \<and> j < i + Suc k \<longrightarrow> \<not> bit x j) =
    (\<not> bit x i \<and> (\<forall>j. Suc i \<le> j \<and> j < Suc i + k \<longrightarrow> \<not> bit x j))"
  proof (intro iffI conjI allI impI)
    fix j
    assume a: "\<not> bit x i \<and> (\<forall>j. Suc i \<le> j \<and> j < Suc i + k \<longrightarrow> \<not> bit x j)"
      and b: "i \<le> j \<and> j < i + Suc k"
    show "\<not> bit x j"
    proof (cases "j = i")
      case True
      then show ?thesis using a by simp
    next
      case False
      then have "Suc i \<le> j \<and> j < Suc i + k" using b by simp
      then show ?thesis using a by blast
    qed
  qed auto
  then show ?case using Suc.IH [of "Suc i"] by simp
qed

lemma scan_up_Some:
  "scan_up x i k = Some j \<Longrightarrow>
    i \<le> j \<and> j < i + k \<and> bit x j \<and> (\<forall>m. i \<le> m \<and> m < j \<longrightarrow> \<not> bit x m)"
proof (induction k arbitrary: i)
  case 0
  then show ?case by simp
next
  case (Suc k)
  show ?case
  proof (cases "bit x i")
    case True
    then show ?thesis using Suc.prems by auto
  next
    case False
    then have "scan_up x (Suc i) k = Some j" using Suc.prems by simp
    from Suc.IH [OF this]
    have ih: "Suc i \<le> j" "j < Suc i + k" "bit x j"
      "\<And>m. Suc i \<le> m \<Longrightarrow> m < j \<Longrightarrow> \<not> bit x m"
      by auto
    have "\<not> bit x m" if "i \<le> m" "m < j" for m
    proof (cases "m = i")
      case True
      then show ?thesis using False by simp
    next
      case False
      then have "Suc i \<le> m" using that(1) by simp
      then show ?thesis using that(2) by (rule ih(4))
    qed
    then show ?thesis using ih(1-3) by auto
  qed
qed

section \<open>The value of a register cost\<close>

lemma and_exp_if:
  fixes t :: "32 word"
  shows "t AND 2 ^ k = (if bit t k then 2 ^ k else 0)"
  by (rule bit_word_eqI) (auto simp add: bit_simps)

lemma exp22_div_exp:
  "(2 :: 32 word) ^ 22 div 2 ^ k = of_bool (k \<le> 22) * 2 ^ (22 - k)"
proof -
  have "(2 :: 32 word) ^ 22 div 2 ^ k = drop_bit k (2 ^ 22)"
    by (simp only: drop_bit_eq_div)
  also have "\<dots> = of_bool (k \<le> 22 \<and> possible_bit TYPE(32 word) 22) * 2 ^ (22 - k)"
    by (rule drop_bit_exp_eq)
  also have "\<dots> = of_bool (k \<le> 22) * 2 ^ (22 - k)"
    by simp
  finally show ?thesis .
qed

lemma REGCOST_T_exp:
  "REGCOST_T (2 ^ k) t = (if k \<le> 22 \<and> bit t k then 2 ^ 22 else 0)"
proof -
  have w: "push_bit 16 REGCOST_PHI_WEIGHT = (2 :: 32 word) ^ 22"
    by (simp add: REGCOST_PHI_WEIGHT_def)
  show ?thesis
  proof (cases "k \<le> 22")
    case True
    have "(2 :: 32 word) ^ k * 2 ^ (22 - k) = 2 ^ 22"
      using True by (simp only: power_add [symmetric]) simp
    then show ?thesis
      unfolding REGCOST_T_def w and_exp_if exp22_div_exp using True by simp
  next
    case False
    then show ?thesis
      unfolding REGCOST_T_def w exp22_div_exp by simp
  qed
qed

lemma unat_add_push16:
  fixes x y :: "32 word"
  assumes "x < 2 ^ 16"
  shows "unat (x + push_bit 16 y) = unat x + 65536 * (unat y mod 65536)"
proof -
  have x: "unat x < 65536" using assms by (simp add: word_less_nat_alt)
  have p: "unat (push_bit 16 y) = 65536 * (unat y mod 65536)"
    apply (subst unsigned_push_bit_eq)
    apply (subst take_bit_push_bit)
    apply (simp add: push_bit_eq_mult take_bit_eq_mod)
    done
  have "unat y mod 65536 \<le> 65535" by simp
  then have "65536 * (unat y mod 65536) \<le> 65536 * 65535" by (rule mult_le_mono2)
  then have "unat x + unat (push_bit 16 y) < 2 ^ LENGTH(32)"
    using x unfolding p by simp
  then have "unat (x + push_bit 16 y) = unat x + unat (push_bit 16 y)"
    by (simp only: unat_add_lem)
  then show ?thesis by (simp only: p)
qed

lemma unat16_less:
  fixes r :: "16 word"
  shows "unat r < 65536"
  using unsigned_less [of r, where ?'a = nat] by simp

lemma unat_ucast16:
  fixes r :: "16 word"
  shows "unat (ucast r :: 32 word) = unat r"
  using unat16_less [of r] by (simp add: unsigned_ucast_eq take_bit_nat_eq_self)

lemma ucast16_less:
  fixes r :: "16 word"
  shows "(ucast r :: 32 word) < 2 ^ 16"
  using unat16_less [of r] by (simp add: word_less_nat_alt unat_ucast16)

lemma REGCOST_REF_T_split:
  "REGCOST_REF_T (2 ^ k) ref t =
    ref + push_bit 16 (ref + of_nat (if k \<le> 22 \<and> bit t k then 64 else 0))"
proof -
  have "(2 :: 32 word) ^ 22 = push_bit 16 64" by simp
  then have "REGCOST_T (2 ^ k) t = push_bit 16 (of_nat (if k \<le> 22 \<and> bit t k then 64 else 0))"
    unfolding REGCOST_T_exp by simp
  then show ?thesis
    by (simp only: REGCOST_REF_T_def REGCOST_def push_bit_add add.assoc)
qed

lemma unat_REGCOST_REF_T:
  fixes r :: "16 word"
  shows "unat (REGCOST_REF_T (2 ^ k) (ucast r) t) =
    unat r + 65536 * ((unat r + (if k \<le> 22 \<and> bit t k then 64 else 0)) mod 65536)"
proof -
  define w :: nat where "w = (if k \<le> 22 \<and> bit t k then 64 else 0)"
  have p: "w \<le> 64" by (simp add: w_def)
  then have "unat (of_nat w :: 32 word) = w"
    by (simp add: unat_of_nat take_bit_nat_eq_self)
  moreover have "unat (ucast r :: 32 word) + w < 2 ^ LENGTH(32)"
    using unat16_less [of r] p by (simp add: unat_ucast16)
  ultimately have "unat (ucast r + of_nat w :: 32 word) = unat r + w"
    by (simp add: unat_add_lem [THEN iffD1] unat_ucast16)
  then show ?thesis
    unfolding REGCOST_REF_T_split w_def [symmetric]
    by (simp only: unat_add_push16 [OF ucast16_less] unat_ucast16)
qed

lemma phi_weight_exp:
  assumes "k \<le> 22"
  shows "phi_weight (2 ^ k) t = (if k \<le> 22 \<and> bit t k then 64 else 0)"
proof -
  have "(t AND 2 ^ k \<noteq> 0) = bit t k"
    unfolding and_exp_if using assms by simp
  then show ?thesis
    using assms by (simp add: phi_weight_def REGCOST_PHI_WEIGHT_def)
qed

lemma unat_cost_key:
  fixes r :: "16 word"
  assumes "k \<le> 22" and "spec_cost_key (2 ^ k) r t < 65536"
  shows "unat (REGCOST_REF_T (2 ^ k) (ucast r) t) = unat r + 65536 * spec_cost_key (2 ^ k) r t"
  using assms unfolding unat_REGCOST_REF_T spec_cost_key_def phi_weight_exp [OF assms(1)]
  by simp

lemma cost_le_iff:
  fixes r1 r2 :: "16 word"
  assumes "k \<le> 22"
    and "spec_cost_key (2 ^ k) r1 t1 < 65536"
    and "spec_cost_key (2 ^ k) r2 t2 < 65536"
  shows "(REGCOST_REF_T (2 ^ k) (ucast r1) t1 \<le> REGCOST_REF_T (2 ^ k) (ucast r2) t2) =
    (spec_cost_key (2 ^ k) r1 t1 < spec_cost_key (2 ^ k) r2 t2 \<or>
     spec_cost_key (2 ^ k) r1 t1 = spec_cost_key (2 ^ k) r2 t2 \<and> r1 \<le> r2)"
proof -
  have "unat r1 < 65536" "unat r2 < 65536" by (rule unat16_less)+
  then show ?thesis
    unfolding word_le_nat_alt unat_cost_key [OF assms(1,2)] unat_cost_key [OF assms(1,3)]
    by auto
qed

lemma cost_high_half:
  fixes r :: "16 word"
  assumes "k \<le> 22" and "spec_cost_key (2 ^ k) r t < 65536"
  shows "unat (drop_bit 16 (REGCOST_REF_T (2 ^ k) (ucast r) t)) = spec_cost_key (2 ^ k) r t"
proof -
  have "unat r < 65536" by (rule unat16_less)
  then show ?thesis
    unfolding unat_drop_bit_eq unat_cost_key [OF assms] by (simp add: drop_bit_eq_div)
qed

lemma cost_low_half:
  fixes r :: "16 word"
  shows "regcost_ref (REGCOST_REF_T (2 ^ k) (ucast r) t) = r"
proof -
  have "unat r < 65536" by (rule unat16_less)
  then have "unat (regcost_ref (REGCOST_REF_T (2 ^ k) (ucast r) t)) = unat r"
    unfolding regcost_ref_def unsigned_ucast_eq unat_REGCOST_REF_T
    by (simp add: take_bit_eq_mod)
  then show ?thesis by (simp only: word_unat_eq_iff)
qed

section \<open>Claims about the cost model\<close>

text \<open>
  Claim C1, as amended. Let two occupied registers hold values with 16-bit references
  \<open>r1\<close>, \<open>r2\<close> and type flags \<open>t1\<close>, \<open>t2\<close>, with the phi flag a single bit \<open>2 ^ k\<close>,
  \<open>k \<le> 22\<close>, and let each sort key, the reference plus the phi weight of 64, fit the
  upper half of the cost (be smaller than 65536). Then comparing the two
  \<open>REGCOST_REF_T\<close> values as unsigned 32-bit integers compares the keys first and the
  references on a tie, the upper half of the minimum is the smaller key, and the
  reference read from the minimum is that of the register so selected. In particular
  reference 10 without phi beats reference 5 with phi (keys 10 and 69), and reference
  100 without phi beats reference 200 with phi (keys 100 and 264).
\<close>

theorem regcost_min_order:
  fixes r1 r2 :: IRRef1
  assumes "isphi = 2 ^ k" and "k \<le> 22"
    and "spec_cost_key isphi r1 t1 < 65536"
    and "spec_cost_key isphi r2 t2 < 65536"
  shows "(REGCOST_REF_T isphi (ucast r1) t1 \<le> REGCOST_REF_T isphi (ucast r2) t2) =
      (spec_cost_key isphi r1 t1 < spec_cost_key isphi r2 t2 \<or>
       spec_cost_key isphi r1 t1 = spec_cost_key isphi r2 t2 \<and> r1 \<le> r2)
    \<and> unat (drop_bit 16 (min (REGCOST_REF_T isphi (ucast r1) t1)
          (REGCOST_REF_T isphi (ucast r2) t2))) =
      min (spec_cost_key isphi r1 t1) (spec_cost_key isphi r2 t2)
    \<and> regcost_ref (min (REGCOST_REF_T isphi (ucast r1) t1)
          (REGCOST_REF_T isphi (ucast r2) t2)) =
      (if spec_cost_key isphi r1 t1 < spec_cost_key isphi r2 t2 \<or>
          spec_cost_key isphi r1 t1 = spec_cost_key isphi r2 t2 \<and> r1 \<le> r2
       then r1 else r2)
    \<and> spec_cost_key isphi 10 0 = 10 \<and> spec_cost_key isphi 5 isphi = 69
    \<and> min (REGCOST_REF_T isphi (ucast (10 :: IRRef1)) 0)
          (REGCOST_REF_T isphi (ucast (5 :: IRRef1)) isphi) =
        REGCOST_REF_T isphi (ucast (10 :: IRRef1)) 0
    \<and> spec_cost_key isphi 200 isphi = 264 \<and> spec_cost_key isphi 100 0 = 100
    \<and> min (REGCOST_REF_T isphi (ucast (200 :: IRRef1)) isphi)
          (REGCOST_REF_T isphi (ucast (100 :: IRRef1)) 0) =
        REGCOST_REF_T isphi (ucast (100 :: IRRef1)) 0"
proof -
  let ?c1 = "REGCOST_REF_T (2 ^ k) (ucast r1) t1"
  let ?c2 = "REGCOST_REF_T (2 ^ k) (ucast r2) t2"
  have k1: "spec_cost_key (2 ^ k) r1 t1 < 65536" and k2: "spec_cost_key (2 ^ k) r2 t2 < 65536"
    using assms by simp_all
  note le = cost_le_iff [OF assms(2) k1 k2]
  have hi: "unat (drop_bit 16 (min ?c1 ?c2)) =
      min (spec_cost_key (2 ^ k) r1 t1) (spec_cost_key (2 ^ k) r2 t2)"
  proof (cases "?c1 \<le> ?c2")
    case True
    then have "min ?c1 ?c2 = ?c1" by (simp add: min_def)
    moreover have "spec_cost_key (2 ^ k) r1 t1 \<le> spec_cost_key (2 ^ k) r2 t2"
      using True le by auto
    ultimately show ?thesis
      using cost_high_half [OF assms(2) k1] by (simp add: min_def)
  next
    case False
    then have "min ?c1 ?c2 = ?c2" by (simp add: min_def)
    moreover have "spec_cost_key (2 ^ k) r2 t2 \<le> spec_cost_key (2 ^ k) r1 t1"
      using False le by auto
    ultimately show ?thesis
      using cost_high_half [OF assms(2) k2] by (simp add: min_def)
  qed
  have lo: "regcost_ref (min ?c1 ?c2) =
      (if spec_cost_key (2 ^ k) r1 t1 < spec_cost_key (2 ^ k) r2 t2 \<or>
          spec_cost_key (2 ^ k) r1 t1 = spec_cost_key (2 ^ k) r2 t2 \<and> r1 \<le> r2
       then r1 else r2)"
    unfolding le [symmetric] by (simp add: min_def cost_low_half)
  have bit_phi: "bit ((2 :: 32 word) ^ k) k" using assms(2) by (simp add: bit_simps)
  have keys: "spec_cost_key (2 ^ k) 10 0 = 10" "spec_cost_key (2 ^ k) 5 (2 ^ k) = 69"
    "spec_cost_key (2 ^ k) 200 (2 ^ k) = 264" "spec_cost_key (2 ^ k) 100 0 = 100"
    using bit_phi assms(2) by (simp_all add: spec_cost_key_def phi_weight_exp)
  have ex1: "REGCOST_REF_T (2 ^ k) (ucast (10 :: IRRef1)) 0
      \<le> REGCOST_REF_T (2 ^ k) (ucast (5 :: IRRef1)) (2 ^ k)"
    using cost_le_iff [OF assms(2), of 10 0 5 "2 ^ k"] keys by simp
  have ex2: "REGCOST_REF_T (2 ^ k) (ucast (100 :: IRRef1)) 0
      \<le> REGCOST_REF_T (2 ^ k) (ucast (200 :: IRRef1)) (2 ^ k)"
    using cost_le_iff [OF assms(2), of 100 0 200 "2 ^ k"] keys by simp
  show ?thesis
    unfolding assms(1) using le hi lo keys ex1 ex2 by (simp add: min_def)
qed

theorem regcost_min_order_witness:
  "(0x40 :: 32 word) = 2 ^ 6
    \<and> spec_cost_key 0x40 10 0 = 10 \<and> spec_cost_key 0x40 5 0x40 = 69
    \<and> REGCOST_REF_T 0x40 (ucast (10 :: IRRef1)) 0 \<le> REGCOST_REF_T 0x40 (ucast (5 :: IRRef1)) 0x40
    \<and> unat (drop_bit 16 (min (REGCOST_REF_T 0x40 (ucast (10 :: IRRef1)) 0)
          (REGCOST_REF_T 0x40 (ucast (5 :: IRRef1)) 0x40))) = 10"
proof -
  have a: "(0x40 :: 32 word) = 2 ^ 6" by simp
  have b: "(6 :: nat) \<le> 22" by simp
  have k: "spec_cost_key 0x40 10 0 = 10" "spec_cost_key 0x40 5 0x40 = 69"
    by (simp_all add: spec_cost_key_def phi_weight_def REGCOST_PHI_WEIGHT_def)
  have c: "spec_cost_key 0x40 10 0 < 65536" and d: "spec_cost_key 0x40 5 0x40 < 65536"
    using k by simp_all
  note t = regcost_min_order [OF a b c d]
  have le: "REGCOST_REF_T 0x40 (ucast (10 :: IRRef1)) 0
      \<le> REGCOST_REF_T 0x40 (ucast (5 :: IRRef1)) 0x40"
    unfolding t [THEN conjunct1] k by simp
  have hi: "unat (drop_bit 16 (min (REGCOST_REF_T 0x40 (ucast (10 :: IRRef1)) 0)
      (REGCOST_REF_T 0x40 (ucast (5 :: IRRef1)) 0x40))) = 10"
    unfolding t [THEN conjunct2, THEN conjunct1] k by simp
  show ?thesis
    using a k le hi by (intro conjI)
qed

theorem regcost_min_counterexample:
  "min (REGCOST_REF_T 0x40 (ucast (65535 :: IRRef1)) 0x40)
       (REGCOST_REF_T 0x40 (ucast (100 :: IRRef1)) 0) =
     REGCOST_REF_T 0x40 (ucast (65535 :: IRRef1)) 0x40
   \<and> REGCOST_REF_T 0x40 (ucast (65535 :: IRRef1)) 0x40 < REGCOST_REF_T 0x40 (ucast (100 :: IRRef1)) 0
   \<and> regcost_ref (REGCOST_REF_T 0x40 (ucast (65535 :: IRRef1)) 0x40) = 65535
   \<and> spec_cost_key 0x40 65535 0x40 = 65599
   \<and> spec_cost_key 0x40 100 0 = 100"
  by (simp add: REGCOST_REF_T_def REGCOST_def REGCOST_T_def REGCOST_PHI_WEIGHT_def
      regcost_ref_def spec_cost_key_def phi_weight_def)

text \<open>
  Claim C2. For every 16-bit reference \<open>ref\<close> and every type-flag word \<open>t\<close>, with the
  phi flag a single bit, \<open>regcost_ref\<close> of \<open>REGCOST_REF_T(ref, t)\<close> is \<open>ref\<close>: the low
  16 bits of a cost are the reference, whether or not the phi penalty was added.
\<close>

theorem regcost_ref_exact:
  fixes ref :: IRRef1
  assumes "isphi = 2 ^ k" and "k < 32"
  shows "regcost_ref (REGCOST_REF_T isphi (ucast ref) t) = ref"
  unfolding assms(1) by (rule cost_low_half)

theorem regcost_ref_exact_witness:
  "(0x40 :: 32 word) = 2 ^ 6
    \<and> regcost_ref (REGCOST_REF_T 0x40 (ucast (5 :: IRRef1)) 0x40) = 5
    \<and> regcost_ref (REGCOST_REF_T 0x40 (ucast (65535 :: IRRef1)) 0x40) = 65535"
proof -
  have a: "(0x40 :: 32 word) = 2 ^ 6" by simp
  have b: "(6 :: nat) < 32" by simp
  show ?thesis
    using a regcost_ref_exact [OF a b, of 5 "0x40"] regcost_ref_exact [OF a b, of 65535 "0x40"]
    by (intro conjI)
qed

section \<open>Claims about exit stubs\<close>

text \<open>
  Claim C3. For every exit index \<open>e\<close>, with \<open>G\<close> stubs in a group and \<open>S\<close> bytes between
  stubs (constants with \<open>G\<close> not zero and \<open>S * (G - 1)\<close> below \<open>2 ^ 32\<close>), if group
  \<open>e div G\<close> is in the table and its base is not null, \<open>exitstub_addr\<close> returns that base
  plus \<open>S * (e mod G)\<close>. In particular, with \<open>G = 16\<close> and \<open>S = 32\<close>, exit 20 is 128 bytes
  into group 1 and exit 15 is 480 bytes into group 0.
\<close>

theorem exitstub_addr_formula:
  assumes "G \<noteq> 0"
    and "unat S * (unat G - 1) < 2 ^ 32"
    and "unat exitno div unat G < length (exitstubgroup J)"
    and "exitstubgroup J ! (unat exitno div unat G) \<noteq> NULL"
  shows "exitstub_addr G S J exitno =
      Some (exitstubgroup J ! (unat exitno div unat G) + unat S * (unat exitno mod unat G))
    \<and> (G = 16 \<and> S = 32 \<and> exitno = 20 \<longrightarrow>
        exitstub_addr G S J exitno = Some (exitstubgroup J ! 1 + 128))
    \<and> (G = 16 \<and> S = 32 \<and> exitno = 15 \<longrightarrow>
        exitstub_addr G S J exitno = Some (exitstubgroup J ! 0 + 480))"
proof -
  have g: "0 < unat G" using assms(1) by (simp add: unat_gt_0)
  have m: "unat (exitno mod G) = unat exitno mod unat G" by (rule unat_mod)
  have "unat exitno mod unat G < unat G" using g by (rule mod_less_divisor)
  then have "unat exitno mod unat G \<le> unat G - 1" by simp
  then have "unat S * (unat exitno mod unat G) \<le> unat S * (unat G - 1)"
    by (rule mult_le_mono2)
  then have "unat S * unat (exitno mod G) < 2 ^ 32"
    unfolding m using assms(2) by (rule le_less_trans)
  then have "unat S * unat (exitno mod G) < 2 ^ LENGTH(32)" by simp
  then have "unat (S * (exitno mod G)) = unat S * unat (exitno mod G)"
    by (rule unat_mult_lem [THEN iffD1])
  then have p: "unat (S * (exitno mod G)) = unat S * (unat exitno mod unat G)"
    by (simp only: m)
  have general: "exitstub_addr G S J exitno =
      Some (exitstubgroup J ! (unat exitno div unat G) + unat S * (unat exitno mod unat G))"
    using assms(1,3,4) p by (simp add: exitstub_addr_def unat_div Let_def)
  then show ?thesis by auto
qed

theorem exitstub_addr_formula_witness:
  "exitstub_addr 16 32 \<lparr>exitstubgroup = [65536, 131072]\<rparr> 20 = Some (131072 + 128)
   \<and> exitstub_addr 16 32 \<lparr>exitstubgroup = [65536, 131072]\<rparr> 15 = Some (65536 + 480)"
proof -
  let ?J = "\<lparr>exitstubgroup = [65536, 131072]\<rparr>"
  have a: "(16 :: 32 word) \<noteq> 0" by simp
  have b: "unat (32 :: 32 word) * (unat (16 :: 32 word) - 1) < 2 ^ 32" by simp
  have c: "unat (20 :: 32 word) div unat (16 :: 32 word) < length (exitstubgroup ?J)"
    and c': "unat (15 :: 32 word) div unat (16 :: 32 word) < length (exitstubgroup ?J)"
    by simp_all
  have d: "exitstubgroup ?J ! (unat (20 :: 32 word) div unat (16 :: 32 word)) \<noteq> NULL"
    and d': "exitstubgroup ?J ! (unat (15 :: 32 word) div unat (16 :: 32 word)) \<noteq> NULL"
    by (simp_all add: NULL_def)
  show ?thesis
    using exitstub_addr_formula [OF a b c d] exitstub_addr_formula [OF a b c' d']
    by simp
qed

section \<open>Claims about the packed register and spill slot\<close>

text \<open>
  Claim C4. For every packed value \<open>rs\<close>, \<open>regsp_used\<close> is false exactly when clearing
  the low 7 bits of \<open>rs\<close>, the register number, leaves the pattern with only the NONE
  bit set and spill slot 0; that is, when the register byte has the NONE bit and the
  spill slot is 0. The uninitialised value \<open>REGSP_INIT\<close> is not used.
\<close>

theorem regsp_used_iff:
  "(\<not> regsp_used rs) = (rs AND NOT (mask 7) = REGSP RID_NONE SPS_NONE)
   \<and> (\<not> regsp_used rs) = (ra_noreg (regsp_reg rs) \<and> \<not> ra_hasspill (regsp_spill rs))
   \<and> \<not> regsp_used REGSP_INIT"
proof -
  have "REGSP RID_MASK 0 = mask 7" by (simp add: REGSP_def RID_MASK_mask)
  then have a: "(\<not> regsp_used rs) = (rs AND NOT (mask 7) = REGSP RID_NONE SPS_NONE)"
    by (simp add: regsp_used_def SPS_NONE_def)
  have b: "(\<not> regsp_used rs) = (ra_noreg (regsp_reg rs) \<and> \<not> ra_hasspill (regsp_spill rs))"
    by (simp add: regsp_used_fields ra_hasspill_def)
  have c: "\<not> regsp_used REGSP_INIT"
    by (simp add: regsp_used_def REGSP_INIT_def REGSP_def RID_INIT_def RID_MASK_def RID_NONE_def)
  show ?thesis using a b c by (intro conjI)
qed

text \<open>
  Claim C5. Packing a register \<open>r\<close> with \<open>r \<le> 255\<close> and a spill-slot index \<open>s\<close> with
  \<open>REGSP\<close> and then extracting gives back \<open>r\<close> and \<open>s\<close>, and \<open>ra_hasspill\<close> of the
  extracted slot holds iff \<open>s\<close> is not 0. A spill-slot index is what the packed value
  holds above the register byte: the 8 bits of the 16-bit \<open>ir->prev\<close>, here \<open>s8\<close>, and
  at most the 24 bits of a \<open>RegSP\<close>, here \<open>s\<close>. Register 3 with slot 0 unpacks to
  register 3, slot 0, no spill slot.
\<close>

theorem regsp_roundtrip:
  fixes s8 :: "8 word"
  assumes "r \<le> 255" and "s < 2 ^ 24"
  shows "regsp_reg (REGSP r s) = r \<and> regsp_spill (REGSP r s) = s
    \<and> ra_hasspill (regsp_spill (REGSP r s)) = (s \<noteq> 0)
    \<and> regsp_reg (REGSP r (ucast s8)) = r \<and> regsp_spill (REGSP r (ucast s8)) = ucast s8
    \<and> ra_hasspill (regsp_spill (REGSP r (ucast s8))) = (s8 \<noteq> 0)"
proof -
  have a: "regsp_reg (REGSP r s) = r \<and> regsp_spill (REGSP r s) = s
      \<and> ra_hasspill (regsp_spill (REGSP r s)) = (s \<noteq> 0)"
    using regsp_reg_REGSP [OF assms(1)] regsp_spill_REGSP [OF assms]
    by (simp add: ra_hasspill_def SPS_NONE_def)
  have "((ucast s8 :: 32 word) \<noteq> 0) = (s8 \<noteq> 0)"
    using ucast8_eq_0 [of s8] by simp
  then have b: "regsp_reg (REGSP r (ucast s8)) = r
      \<and> regsp_spill (REGSP r (ucast s8)) = ucast s8
      \<and> ra_hasspill (regsp_spill (REGSP r (ucast s8))) = (s8 \<noteq> 0)"
    using regsp_reg_REGSP [OF assms(1)] regsp_spill_REGSP [OF assms(1) ucast8_less]
    by (simp add: ra_hasspill_def SPS_NONE_def)
  show ?thesis using a b by blast
qed

theorem regsp_roundtrip_witness:
  "regsp_reg (REGSP 3 0) = 3 \<and> regsp_spill (REGSP 3 0) = 0
    \<and> \<not> ra_hasspill (regsp_spill (REGSP 3 0))
    \<and> regsp_reg (REGSP 3 5) = 3 \<and> regsp_spill (REGSP 3 5) = 5
    \<and> ra_hasspill (regsp_spill (REGSP 3 5))
    \<and> regsp_reg (REGSP 255 0xffffff) = 255 \<and> regsp_spill (REGSP 255 0xffffff) = 0xffffff"
proof -
  have a: "(3 :: 32 word) \<le> 255" and a': "(255 :: 32 word) \<le> 255" by simp_all
  have b: "(0 :: 32 word) < 2 ^ 24" and c: "(5 :: 32 word) < 2 ^ 24"
    and d: "(0xffffff :: 32 word) < 2 ^ 24" by simp_all
  note t = regsp_roundtrip [OF a b]
  note u = regsp_roundtrip [OF a c]
  note v = regsp_roundtrip [OF a' d]
  have t3: "\<not> ra_hasspill (regsp_spill (REGSP 3 0))"
    unfolding t [THEN conjunct2, THEN conjunct2, THEN conjunct1] by simp
  have u3: "ra_hasspill (regsp_spill (REGSP 3 5))"
    unfolding u [THEN conjunct2, THEN conjunct2, THEN conjunct1] by simp
  show ?thesis
    using t [THEN conjunct1] t [THEN conjunct2, THEN conjunct1] t3
      u [THEN conjunct1] u [THEN conjunct2, THEN conjunct1] u3
      v [THEN conjunct1] v [THEN conjunct2, THEN conjunct1]
    by (intro conjI)
qed

section \<open>Claims about register sets\<close>

text \<open>
  Claim C7, as amended. For every \<open>lo\<close> and \<open>hi\<close> with \<open>0 \<le> lo \<le> hi \<le> 32\<close>, \<open>lo < 32\<close>
  and \<open>hi - lo < 32\<close>, and every register index \<open>r\<close> from 0 to 31, \<open>RSET_RANGE(lo, hi)\<close>
  is defined and \<open>rset_test\<close> of it at \<open>r\<close> is 1 iff \<open>lo \<le> r < hi\<close>, and 0 otherwise.
\<close>

theorem RSET_RANGE_test:
  assumes "0 \<le> lo" and "lo \<le> hi" and "hi \<le> 32" and "lo < 32" and "hi - lo < 32"
    and "0 \<le> r" and "r < 32"
  shows "\<exists>m. RSET_RANGE lo hi = Some m
    \<and> rset_test m r = Some (if lo \<le> r \<and> r < hi then 1 else 0)"
proof -
  have m: "RSET_RANGE lo hi = Some (push_bit (nat lo) (push_bit (nat (hi - lo)) 1 - 1))"
    using assms by (simp add: RSET_RANGE_def RID2RSET_def shl32_def)
  have "(nat lo \<le> nat r \<and> nat r < 32 \<and> nat r < nat lo + nat (hi - lo)) = (lo \<le> r \<and> r < hi)"
    using assms by auto
  then have "rset_test (push_bit (nat lo) (push_bit (nat (hi - lo)) 1 - 1)) r =
      Some (if lo \<le> r \<and> r < hi then 1 else 0)"
    using assms(6,7) mask_shift_test [of "nat r" "nat lo" "nat (hi - lo)"]
    by (simp add: rset_test_def shr32_def)
  then show ?thesis using m by simp
qed

theorem RSET_RANGE_test_witness:
  "(\<exists>m. RSET_RANGE 2 5 = Some m \<and> rset_test m 3 = Some 1)
    \<and> (\<exists>m. RSET_RANGE 16 32 = Some m \<and> rset_test m 15 = Some 0)"
proof -
  have a: "\<exists>m. RSET_RANGE 2 5 = Some m
      \<and> rset_test m 3 = Some (if (2 :: int) \<le> 3 \<and> (3 :: int) < 5 then 1 else 0)"
    by (rule RSET_RANGE_test) simp_all
  have b: "\<exists>m. RSET_RANGE 16 32 = Some m
      \<and> rset_test m 15 = Some (if (16 :: int) \<le> 15 \<and> (15 :: int) < 32 then 1 else 0)"
    by (rule RSET_RANGE_test) simp_all
  show ?thesis using a b by simp
qed

theorem RSET_RANGE_counterexample:
  "RSET_RANGE 0 32 = None \<and> RSET_RANGE 32 32 = None"
  by (simp add: RSET_RANGE_def RID2RSET_def shl32_def)

text \<open>
  Claim C8. For every register set that is not empty, \<open>rset_picktop\<close> returns the index
  of the highest set bit and \<open>rset_pickbot\<close> the index of the lowest set bit; both are
  functions of the mask alone. On the mask with bits 2, 5 and 9 set they return 9 and 2.
\<close>

theorem rset_pick_extremes:
  assumes "rs \<noteq> RSET_EMPTY"
  shows "(\<exists>i j. rset_picktop rs = Some (of_nat i) \<and> i < 32 \<and> bit rs i
      \<and> (\<forall>n. bit rs n \<longrightarrow> n \<le> i)
      \<and> rset_pickbot rs = Some (of_nat j) \<and> j < 32 \<and> bit rs j
      \<and> (\<forall>n. bit rs n \<longrightarrow> j \<le> n))
    \<and> rset_picktop 0x224 = Some 9 \<and> rset_pickbot 0x224 = Some 2"
proof -
  from assms obtain b where b: "b < 32" "bit rs b"
    using ex_bit [of rs] by (auto simp add: RSET_EMPTY_def)
  have "b \<le> 31" using b(1) by simp
  then have "scan_down rs 31 \<noteq> None" using b(2) by (auto simp add: scan_down_None)
  then obtain i where i: "scan_down rs 31 = Some i" by auto
  have i2: "i \<le> 31" "bit rs i" "\<And>n. i < n \<Longrightarrow> n \<le> 31 \<Longrightarrow> \<not> bit rs n"
    using scan_down_Some [OF i] by auto
  have itop: "n \<le> i" if "bit rs n" for n
  proof (rule ccontr)
    assume "\<not> n \<le> i"
    moreover have "n < 32" using that by (auto dest: bit_imp_le_length)
    ultimately show False using i2(3) [of n] that by simp
  qed
  have "scan_up rs 0 32 \<noteq> None" using b by (auto simp add: scan_up_None)
  then obtain j where j: "scan_up rs 0 32 = Some j" by auto
  have j2: "j < 32" "bit rs j" "\<And>n. n < j \<Longrightarrow> \<not> bit rs n"
    using scan_up_Some [OF j] by auto
  have jbot: "j \<le> n" if "bit rs n" for n
    using j2(3) [of n] that by (auto simp add: not_less [symmetric])
  have general: "\<exists>i j. rset_picktop rs = Some (of_nat i) \<and> i < 32 \<and> bit rs i
      \<and> (\<forall>n. bit rs n \<longrightarrow> n \<le> i)
      \<and> rset_pickbot rs = Some (of_nat j) \<and> j < 32 \<and> bit rs j
      \<and> (\<forall>n. bit rs n \<longrightarrow> j \<le> n)"
    using i i2 itop j j2 jbot
    by (intro exI [of _ i] exI [of _ j])
      (simp add: rset_picktop_def rset_pickbot_def lj_fls_def lj_ffs_def)
  have particular: "rset_picktop 0x224 = Some 9 \<and> rset_pickbot 0x224 = Some 2"
    by (simp add: rset_picktop_def rset_pickbot_def lj_fls_def lj_ffs_def eval_nat_numeral)
  show ?thesis using general particular by blast
qed

theorem rset_pick_extremes_witness:
  "(0x224 :: RegSet) \<noteq> RSET_EMPTY
    \<and> rset_picktop 0x224 = Some 9 \<and> rset_pickbot 0x224 = Some 2"
proof -
  have a: "(0x224 :: RegSet) \<noteq> RSET_EMPTY" by (simp add: RSET_EMPTY_def)
  note t = rset_pick_extremes [OF a, THEN conjunct2]
  show ?thesis
    using a t [THEN conjunct1] t [THEN conjunct2] by (intro conjI)
qed

section \<open>Claims about the register and hint encoding\<close>

text \<open>
  Claim C6. For every register id \<open>r\<close>, \<open>ra_gethint\<close> of the value stored by
  \<open>ra_sethint\<close> is the low 7 bits of \<open>r\<close>, and \<open>ra_noreg\<close> holds of the stored value.
\<close>

theorem ra_sethint_gethint:
  "ra_gethint (ucast (ra_sethint rr r)) = take_bit 7 r
   \<and> ra_gethint (ucast (ra_sethint rr r)) = r AND RID_MASK
   \<and> ra_noreg (ucast (ra_sethint rr r))"
proof -
  have "take_bit 7 r = r AND RID_MASK"
    by (simp only: take_bit_eq_mask RID_MASK_mask)
  then show ?thesis
    using sethint_gethint [of rr r] sethint_noreg [of rr r] by simp
qed

text \<open>
  Claim C9. For every register id, and so for every id from 0 to 31 and every 8-bit id,
  exactly one of \<open>ra_noreg\<close> (is unallocated) and \<open>ra_hasreg\<close> (is allocated) holds.
\<close>

theorem ra_noreg_xor_hasreg:
  "(ra_noreg r \<or> ra_hasreg r) \<and> \<not> (ra_noreg r \<and> ra_hasreg r)"
  by (simp add: ra_noreg_def ra_hasreg_def)

text \<open>
  Claim C10. For every register id \<open>r\<close> whose low 7 bits are all ones, \<open>ra_sethint\<close>
  stores \<open>0xff\<close>, the \<open>RID_INIT\<close> sentinel, so that \<open>ra_hashint\<close> of the stored value is
  false, while \<open>ra_gethint\<close> reads 127 back.
\<close>

theorem ra_sethint_all_ones:
  assumes "r AND RID_MASK = RID_MASK"
  shows "ra_sethint rr r = 0xff
    \<and> ucast (ra_sethint rr r) = RID_INIT
    \<and> \<not> ra_hashint (ucast (ra_sethint rr r))
    \<and> ra_gethint (ucast (ra_sethint rr r)) = 127"
proof -
  have "mask 8 = (0xff :: 8 word)" by (simp add: mask_eq_exp_minus_1)
  then have a: "ra_sethint rr r = 0xff" using sethint_ones [OF assms, of rr] by simp
  then have b: "(ucast (ra_sethint rr r) :: Reg) = RID_INIT"
    by (simp add: RID_INIT_def RID_NONE_def RID_MASK_def)
  have c: "ra_gethint (ucast (ra_sethint rr r)) = 127"
    unfolding sethint_gethint assms by (simp add: RID_MASK_def)
  show ?thesis using a b c by (simp add: ra_hashint_def)
qed

theorem ra_sethint_all_ones_witness:
  "(127 :: Reg) AND RID_MASK = RID_MASK
    \<and> ra_sethint 0 127 = 0xff
    \<and> \<not> ra_hashint (ucast (ra_sethint 0 127))
    \<and> ra_gethint (ucast (ra_sethint 0 127)) = 127"
proof -
  have a: "(127 :: Reg) AND RID_MASK = RID_MASK" by (simp add: RID_MASK_def)
  note t = ra_sethint_all_ones [OF a, of 0]
  show ?thesis
    using a t [THEN conjunct1] t [THEN conjunct2, THEN conjunct2, THEN conjunct1]
      t [THEN conjunct2, THEN conjunct2, THEN conjunct2]
    by (intro conjI)
qed

end
